theory Spec2Isabelle
  imports Main "HOL-Library.Sublist" "HOL-Library.Multiset"
begin

section \<open>Mindmap construction of \<open>app.py\<close>\<close>

text \<open>
  The development embeds the part of \<open>generate_mindmap_data\<close> that turns the summary
  text into the mindmap tree (lines 93 to 160 of \<open>app.py\<close>), together with the
  chunking glue in front of it.  A Python string is modelled as a \<open>string\<close>; one
  \<open>char\<close> stands for one code point below 256, and the whitespace and lower-casing
  tables below are those of Python on that range.
\<close>

subsection \<open>Characters and strings\<close>

text \<open>\<open>str.isspace\<close> on one code point: TAB to CR, FS to US, space, NEL and NBSP.\<close>

definition isspace :: "char \<Rightarrow> bool" where
  "isspace c =
     (let n = (of_char c :: nat)
      in (9 \<le> n \<and> n \<le> 13) \<or> (28 \<le> n \<and> n \<le> 32) \<or> n = 133 \<or> n = 160)"

text \<open>The character class \<open>[.!?]\<close> of the split pattern.\<close>

definition is_terminator :: "char \<Rightarrow> bool" where
  "is_terminator c = (c = CHR ''.'' \<or> c = CHR ''!'' \<or> c = CHR ''?'')"

text \<open>\<open>str.strip()\<close>: leading and trailing whitespace removed.\<close>

definition strip :: "string \<Rightarrow> string" where
  "strip s = rev (dropWhile isspace (rev (dropWhile isspace s)))"

text \<open>\<open>str.lower()\<close>: the upper-case letters below 256 are A to Z and the accented
  capitals 192 to 222 without the multiplication sign 215.\<close>

definition lower_char :: "char \<Rightarrow> char" where
  "lower_char c =
     (let n = (of_char c :: nat)
      in if (65 \<le> n \<and> n \<le> 90) \<or> (192 \<le> n \<and> n \<le> 214) \<or> (216 \<le> n \<and> n \<le> 222)
         then char_of (n + 32) else c)"

definition lower :: "string \<Rightarrow> string" where
  "lower s = map lower_char s"

text \<open>\<open>needle in haystack\<close> on strings: the needle occurs as a contiguous block.\<close>

fun str_contains :: "string \<Rightarrow> string \<Rightarrow> bool" where
  "str_contains needle [] = (needle = [])"
| "str_contains needle (c # cs) = (prefix needle (c # cs) \<or> str_contains needle cs)"

text \<open>The decimal rendering of a non-negative integer inside an f-string.\<close>

definition digit_char :: "nat \<Rightarrow> char" where
  "digit_char d = char_of (48 + d)"

fun str_of_nat :: "nat \<Rightarrow> string" where
  "str_of_nat n =
     (if n < 10 then [digit_char n] else str_of_nat (n div 10) @ [digit_char (n mod 10)])"

declare str_of_nat.simps [simp del]

subsection \<open>Sentence splitting (line 93)\<close>

text \<open>
  The pattern \<open>(?<=[.!?])\s+\<close> at one position of the text: \<open>behind\<close> is the text to
  the left of the position, last character first, and \<open>rest\<close> the text to the right.
  The look-behind reads one character of \<open>behind\<close>; \<open>\s+\<close> is greedy and takes the
  whole whitespace run.  The result is the text after the match.
\<close>

definition match_at :: "string \<Rightarrow> string \<Rightarrow> string option" where
  "match_at behind rest =
     (case behind of
        [] \<Rightarrow> None
      | b # _ \<Rightarrow>
          if is_terminator b \<and> takeWhile isspace rest \<noteq> []
          then Some (dropWhile isspace rest) else None)"

text \<open>
  \<open>re.split\<close>: the positions are tried from left to right; at a match the piece
  collected so far is emitted and the search goes on after the match; at the end of
  the text the last piece is emitted.  \<open>piece\<close> is kept reversed.
\<close>

function re_split_from :: "string \<Rightarrow> string \<Rightarrow> string \<Rightarrow> string list" where
  "re_split_from behind piece rest =
     (case match_at behind rest of
        Some rest' \<Rightarrow>
          rev piece # re_split_from (rev (takeWhile isspace rest) @ behind) [] rest'
      | None \<Rightarrow>
          (case rest of
             [] \<Rightarrow> [rev piece]
           | c # cs \<Rightarrow> re_split_from (c # behind) (c # piece) cs))"
  by pat_completeness auto
termination
proof (relation "measure (\<lambda>(behind, piece, rest). length rest)")
  show "wf (measure (\<lambda>(behind, piece, rest). length rest))"
    by simp
next
  fix behind piece rest :: string and rest'
  assume "match_at behind rest = Some rest'"
  then have "takeWhile isspace rest \<noteq> []" and "rest' = dropWhile isspace rest"
    by (auto simp: match_at_def split: list.splits if_splits)
  moreover have "length (takeWhile isspace rest) + length (dropWhile isspace rest) = length rest"
    by (metis length_append takeWhile_dropWhile_id)
  ultimately have "length rest' < length rest"
    by (cases "takeWhile isspace rest") auto
  then show "((rev (takeWhile isspace rest) @ behind, [], rest'), (behind, piece, rest))
               \<in> measure (\<lambda>(behind, piece, rest). length rest)"
    by simp
next
  fix behind piece rest :: string and c cs
  assume "rest = c # cs"
  then show "((c # behind, c # piece, cs), (behind, piece, rest))
               \<in> measure (\<lambda>(behind, piece, rest). length rest)"
    by simp
qed

declare re_split_from.simps [simp del]

definition re_split :: "string \<Rightarrow> string list" where
  "re_split text = re_split_from [] [] text"

text \<open>\<open>[s.strip() for s in re.split(...) if s.strip()]\<close>\<close>

definition split_sentences :: "string \<Rightarrow> string list" where
  "split_sentences text = map strip (filter (\<lambda>s. strip s \<noteq> []) (re_split text))"

subsection \<open>Topic selection (lines 96 to 106)\<close>

definition medical_keywords :: "string list" where
  "medical_keywords =
     [''disease'', ''syndrome'', ''therapy'', ''treatment'', ''diagnosis'', ''patient'',
      ''cell'', ''organ'', ''system'', ''medicine'', ''drug'', ''condition'',
      ''pathology'', ''physiology'']"

text \<open>
  The inner loop over the keywords for one sentence: the first keyword that passes the
  test \<open>keyword in sentence.lower() and sentence not in main_topics\<close> appends the
  sentence and breaks; a keyword that fails it moves on to the next keyword.
\<close>

fun scan_keywords :: "string list \<Rightarrow> string \<Rightarrow> string list \<Rightarrow> string list" where
  "scan_keywords [] sentence main_topics = main_topics"
| "scan_keywords (keyword # keywords) sentence main_topics =
     (if str_contains keyword (lower sentence) \<and> sentence \<notin> set main_topics
      then main_topics @ [sentence]
      else scan_keywords keywords sentence main_topics)"

text \<open>The outer loop over the sentences, threading \<open>main_topics\<close>.\<close>

fun scan_sentences :: "string list \<Rightarrow> string list \<Rightarrow> string list \<Rightarrow> string list" where
  "scan_sentences keywords [] main_topics = main_topics"
| "scan_sentences keywords (sentence # sentences) main_topics =
     scan_sentences keywords sentences (scan_keywords keywords sentence main_topics)"

text \<open>The scan followed by the fallback of lines 105 and 106.\<close>

definition select_topics :: "string list \<Rightarrow> string list \<Rightarrow> string list" where
  "select_topics keywords sentences =
     (let main_topics = scan_sentences keywords sentences []
      in if main_topics = [] \<and> sentences \<noteq> []
         then take (min 3 (length sentences)) sentences
         else main_topics)"

subsection \<open>Tree assembly (lines 113 to 160)\<close>

text \<open>
  A dictionary with the keys \<open>id\<close>, \<open>text\<close> and \<open>children\<close> is a \<open>Node\<close>; the
  sub-node dictionaries carry only \<open>id\<close> and \<open>text\<close> and are a \<open>Leaf\<close>.
\<close>

datatype node =
    Node (node_id: string) (node_text: string) (node_children: "node list")
  | Leaf (node_id: string) (node_text: string)
where
  "node_children (Leaf i t) = []"

definition topic_id :: "nat \<Rightarrow> string" where
  "topic_id i = ''node-'' @ str_of_nat i"

definition sub_id :: "nat \<Rightarrow> nat \<Rightarrow> string" where
  "sub_id i j = ''node-'' @ str_of_nat i @ ''-sub-'' @ str_of_nat j"

definition other_id :: "nat \<Rightarrow> string" where
  "other_id k = ''node-other-sub-'' @ str_of_nat k"

text \<open>
  The inner loop of lines 134 to 141 for topic \<open>i\<close>: the state is the used-set, the
  counter \<open>sub_nodes_added\<close> and the children of the topic node built so far.
\<close>

fun assign_subs ::
  "nat \<Rightarrow> string list \<Rightarrow> string set \<Rightarrow> nat \<Rightarrow> node list \<Rightarrow> node list \<times> string set" where
  "assign_subs i [] used added children = (children, used)"
| "assign_subs i (sub_sentence # rest) used added children =
     (if sub_sentence \<notin> used \<and> added < 3
      then assign_subs i rest (insert sub_sentence used) (added + 1)
             (children @ [Leaf (sub_id i added) sub_sentence])
      else assign_subs i rest used added children)"

text \<open>
  The loop of lines 122 to 141 over \<open>enumerate(main_topics)\<close>.  The source appends the
  topic node to the root before filling its children through the alias; the model
  appends it with the children it ends up with.
\<close>

fun assign_topics ::
  "nat \<Rightarrow> string list \<Rightarrow> string list \<Rightarrow> string set \<Rightarrow> node list \<Rightarrow> node list \<times> string set" where
  "assign_topics i [] sentences used root_children = (root_children, used)"
| "assign_topics i (topic_sentence # topics) sentences used root_children =
     (case assign_subs i sentences (insert topic_sentence used) 0 [] of
        (children, used') \<Rightarrow>
          assign_topics (i + 1) topics sentences used'
            (root_children @ [Node (topic_id i) topic_sentence children]))"

text \<open>The loop of lines 151 to 156; the used-set is only read.\<close>

fun collect_other :: "string list \<Rightarrow> string set \<Rightarrow> node list \<Rightarrow> node list" where
  "collect_other [] used children = children"
| "collect_other (sub_sentence # rest) used children =
     (if sub_sentence \<notin> used
      then collect_other rest used (children @ [Leaf (other_id (length children)) sub_sentence])
      else collect_other rest used children)"

text \<open>Lines 145 to 158: the catch-all node, appended only when it has a child.\<close>

definition add_other :: "string list \<Rightarrow> string set \<Rightarrow> node list \<Rightarrow> node list" where
  "add_other sentences used root_children =
     (if length sentences > card used
      then (let other_children = collect_other sentences used []
            in if other_children \<noteq> []
               then root_children @ [Node ''node-other'' ''Other Details'' other_children]
               else root_children)
      else root_children)"

text \<open>Lines 113 to 160 on a sentence sequence and a topic sequence.\<close>

definition assemble :: "string list \<Rightarrow> string list \<Rightarrow> node" where
  "assemble sentences main_topics =
     (case assign_topics 0 main_topics sentences {} [] of
        (root_children, used) \<Rightarrow>
          Node ''root'' ''Medical Document Overview''
            (add_other sentences used root_children))"

text \<open>The used-set after the topic loop.\<close>

definition used_sentences :: "string list \<Rightarrow> string list \<Rightarrow> string set" where
  "used_sentences sentences main_topics = snd (assign_topics 0 main_topics sentences {} [])"

text \<open>Lines 96 to 160 with the keyword list as a parameter.\<close>

definition mindmap_of_sentences :: "string list \<Rightarrow> string list \<Rightarrow> node" where
  "mindmap_of_sentences keywords sentences = assemble sentences (select_topics keywords sentences)"

text \<open>Lines 93 to 160: from the summary text to the tree.\<close>

definition mindmap_of_summary :: "string \<Rightarrow> node" where
  "mindmap_of_summary full_summary =
     mindmap_of_sentences medical_keywords (split_sentences full_summary)"

text \<open>
  The values of the local variables on a summary text: \<open>main_topics\<close> after line 106,
  \<open>used_sentences\<close> after the topic loop (line 141), and the sentences that the test of
  line 152 lets through.
\<close>

definition topics_of_summary :: "string \<Rightarrow> string list" where
  "topics_of_summary full_summary = select_topics medical_keywords (split_sentences full_summary)"

definition used_of_summary :: "string \<Rightarrow> string set" where
  "used_of_summary full_summary =
     used_sentences (split_sentences full_summary) (topics_of_summary full_summary)"

definition unused_of_summary :: "string \<Rightarrow> string list" where
  "unused_of_summary full_summary =
     filter (\<lambda>s. s \<notin> used_of_summary full_summary) (split_sentences full_summary)"

text \<open>All nodes below a node, parents before their children.\<close>

fun nodes_below :: "node \<Rightarrow> node list" where
  "nodes_below (Node i t cs) = concat (map (\<lambda>c. c # nodes_below c) cs)"
| "nodes_below (Leaf i t) = []"

subsection \<open>The used-set as a run holds it\<close>

text \<open>
  \<open>used_sentences\<close> is a Python set: a hash table whose order of entries depends on
  the string hash, and that hash is seeded anew for every process.  To state what a run
  can depend on, lines 120 to 158 are written a second time with the table explicit.
  The table is a list without repetitions, and the hash of the run decides where a new
  entry goes.  The source applies three operations to the set: \<open>add\<close>, \<open>not in\<close> and
  \<open>len\<close>.
\<close>

type_synonym hash_table = "string list"

definition table_add :: "(string \<Rightarrow> nat) \<Rightarrow> string \<Rightarrow> hash_table \<Rightarrow> hash_table" where
  "table_add hash x table =
     (if x \<in> set table then table
      else take (hash x mod (length table + 1)) table
             @ x # drop (hash x mod (length table + 1)) table)"

definition table_contains :: "string \<Rightarrow> hash_table \<Rightarrow> bool" where
  "table_contains x table = (x \<in> set table)"

definition table_len :: "hash_table \<Rightarrow> nat" where
  "table_len table = length table"

text \<open>Lines 134 to 141 on the table.\<close>

fun run_assign_subs ::
  "(string \<Rightarrow> nat) \<Rightarrow> nat \<Rightarrow> string list \<Rightarrow> hash_table \<Rightarrow> nat \<Rightarrow> node list
     \<Rightarrow> node list \<times> hash_table" where
  "run_assign_subs hash i [] used added children = (children, used)"
| "run_assign_subs hash i (sub_sentence # rest) used added children =
     (if \<not> table_contains sub_sentence used \<and> added < 3
      then run_assign_subs hash i rest (table_add hash sub_sentence used) (added + 1)
             (children @ [Leaf (sub_id i added) sub_sentence])
      else run_assign_subs hash i rest used added children)"

text \<open>Lines 122 to 141 on the table.\<close>

fun run_assign_topics ::
  "(string \<Rightarrow> nat) \<Rightarrow> nat \<Rightarrow> string list \<Rightarrow> string list \<Rightarrow> hash_table \<Rightarrow> node list
     \<Rightarrow> node list \<times> hash_table" where
  "run_assign_topics hash i [] sentences used root_children = (root_children, used)"
| "run_assign_topics hash i (topic_sentence # topics) sentences used root_children =
     (case run_assign_subs hash i sentences (table_add hash topic_sentence used) 0 [] of
        (children, used') \<Rightarrow>
          run_assign_topics hash (i + 1) topics sentences used'
            (root_children @ [Node (topic_id i) topic_sentence children]))"

text \<open>Lines 151 to 156 on the table.\<close>

fun run_collect_other :: "string list \<Rightarrow> hash_table \<Rightarrow> node list \<Rightarrow> node list" where
  "run_collect_other [] used children = children"
| "run_collect_other (sub_sentence # rest) used children =
     (if \<not> table_contains sub_sentence used
      then run_collect_other rest used
             (children @ [Leaf (other_id (length children)) sub_sentence])
      else run_collect_other rest used children)"

text \<open>Lines 145 to 158 on the table.\<close>

definition run_add_other :: "string list \<Rightarrow> hash_table \<Rightarrow> node list \<Rightarrow> node list" where
  "run_add_other sentences used root_children =
     (if length sentences > table_len used
      then (let other_children = run_collect_other sentences used []
            in if other_children \<noteq> []
               then root_children @ [Node ''node-other'' ''Other Details'' other_children]
               else root_children)
      else root_children)"

text \<open>The table at the end of the topic loop, and lines 93 to 160 of one run.\<close>

definition run_used :: "(string \<Rightarrow> nat) \<Rightarrow> string \<Rightarrow> hash_table" where
  "run_used hash full_summary =
     snd (run_assign_topics hash 0
            (select_topics medical_keywords (split_sentences full_summary))
            (split_sentences full_summary) [] [])"

definition run_mindmap :: "(string \<Rightarrow> nat) \<Rightarrow> string \<Rightarrow> node" where
  "run_mindmap hash full_summary =
     (case run_assign_topics hash 0
             (select_topics medical_keywords (split_sentences full_summary))
             (split_sentences full_summary) [] [] of
        (root_children, used) \<Rightarrow>
          Node ''root'' ''Medical Document Overview''
            (run_add_other (split_sentences full_summary) used root_children))"

subsection \<open>Chunking and the summariser (lines 70 to 82)\<close>

text \<open>\<open>[text[i:i+n] for i in range(0, len(text), n)]\<close>\<close>

function chunks_of :: "nat \<Rightarrow> string \<Rightarrow> string list" where
  "chunks_of n text =
     (if n = 0 \<or> text = [] then [] else take n text # chunks_of n (drop n text))"
  by pat_completeness auto
termination
  by (relation "measure (\<lambda>(n, text). length text)") auto

declare chunks_of.simps [simp del]

text \<open>\<open>" ".join(summaries)\<close>\<close>

fun join_space :: "string list \<Rightarrow> string" where
  "join_space [] = []"
| "join_space [s] = s"
| "join_space (s # t # ss) = s @ '' '' @ join_space (t # ss)"

text \<open>
  The summarisation model is outside the repository; it enters as the function
  \<open>summarizer\<close> from a chunk to its summary text.
\<close>

definition generate_mindmap_data :: "(string \<Rightarrow> string) \<Rightarrow> string \<Rightarrow> node" where
  "generate_mindmap_data summarizer text =
     (let chunks = chunks_of 1024 text;
          summaries = map summarizer (filter (\<lambda>chunk. strip chunk \<noteq> []) chunks);
          full_summary = join_space summaries
      in mindmap_of_summary full_summary)"

subsection \<open>The splitting rule in the words of the specification\<close>

text \<open>
  Break after a terminator that is followed by whitespace: the terminator closes the
  piece it belongs to, the whole whitespace run is skipped, and the next piece starts
  after it.
\<close>

fun glue :: "char \<Rightarrow> string list \<Rightarrow> string list" where
  "glue c [] = [[c]]"
| "glue c (p # ps) = (c # p) # ps"

function break_after_terminator :: "string \<Rightarrow> string list" where
  "break_after_terminator [] = [[]]"
| "break_after_terminator [c] = [[c]]"
| "break_after_terminator (c # d # cs) =
     (if is_terminator c \<and> isspace d
      then [c] # break_after_terminator (dropWhile isspace cs)
      else glue c (break_after_terminator (d # cs)))"
  by pat_completeness auto
termination
  by (relation "measure length") (auto simp: less_Suc_eq_le length_dropWhile_le le_SucI)

text \<open>Trim each piece, drop the pieces that are empty after trimming, keep the order.\<close>

definition spec_sentences :: "string \<Rightarrow> string list" where
  "spec_sentences text = filter (\<lambda>s. s \<noteq> []) (map strip (break_after_terminator text))"

section \<open>Properties\<close>

subsection \<open>Whitespace, trimming and the empty input\<close>

lemma terminator_not_space: "is_terminator c \<Longrightarrow> \<not> isspace c"
  by (auto simp: is_terminator_def isspace_def)

lemma all_dropWhile_iff: "(\<forall>x\<in>set (dropWhile P xs). P x) \<longleftrightarrow> (\<forall>x\<in>set xs. P x)"
proof
  assume a: "\<forall>x\<in>set (dropWhile P xs). P x"
  have "dropWhile P xs = []"
  proof (rule ccontr)
    assume ne: "dropWhile P xs \<noteq> []"
    then have "\<not> P (hd (dropWhile P xs))" by (rule hd_dropWhile)
    moreover have "hd (dropWhile P xs) \<in> set (dropWhile P xs)" using ne by simp
    ultimately show False using a by blast
  qed
  then show "\<forall>x\<in>set xs. P x" by (simp add: dropWhile_eq_Nil_conv)
next
  assume "\<forall>x\<in>set xs. P x"
  then show "\<forall>x\<in>set (dropWhile P xs). P x" by (meson set_dropWhileD)
qed

lemma strip_empty_iff: "strip s = [] \<longleftrightarrow> (\<forall>c\<in>set s. isspace c)"
  by (simp add: strip_def dropWhile_eq_Nil_conv all_dropWhile_iff)

lemma match_at_Nil [simp]: "match_at behind [] = None"
  by (simp add: match_at_def split: list.splits)

lemma match_at_None_iff:
  "match_at behind rest = None \<longleftrightarrow>
     \<not> (behind \<noteq> [] \<and> is_terminator (hd behind) \<and> rest \<noteq> [] \<and> isspace (hd rest))"
  by (cases behind; cases rest) (auto simp: match_at_def)

lemma match_at_Some_iff:
  "match_at behind rest = Some r \<longleftrightarrow>
     behind \<noteq> [] \<and> is_terminator (hd behind) \<and> rest \<noteq> [] \<and> isspace (hd rest)
       \<and> r = dropWhile isspace rest"
  by (cases behind; cases rest) (auto simp: match_at_def)

text \<open>A text without a terminator is one piece.\<close>

lemma re_split_no_terminator:
  "\<forall>c\<in>set behind \<union> set rest. \<not> is_terminator c \<Longrightarrow>
     re_split_from behind piece rest = [rev piece @ rest]"
proof (induction rest arbitrary: behind piece)
  case Nil
  then show ?case by (simp add: re_split_from.simps)
next
  case (Cons c cs)
  have "match_at behind (c # cs) = None"
    using Cons.prems by (cases behind) (auto simp: match_at_None_iff)
  moreover have "re_split_from (c # behind) (c # piece) cs = [rev (c # piece) @ cs]"
    using Cons.prems by (intro Cons.IH) auto
  ultimately show ?case by (simp add: re_split_from.simps [of behind piece "c # cs"])
qed

lemma whitespace_only_no_sentences:
  assumes "\<forall>c\<in>set text. isspace c"
  shows "split_sentences text = []"
proof -
  have "\<forall>c\<in>set [] \<union> set text. \<not> is_terminator c"
    using assms terminator_not_space by auto
  then have "re_split text = [text]"
    using re_split_no_terminator [of "[]" "text" "[]"] by (simp add: re_split_def)
  moreover have "strip text = []" using assms by (simp add: strip_empty_iff)
  ultimately show ?thesis by (simp add: split_sentences_def)
qed

lemma no_sentences_tree:
  "mindmap_of_sentences keywords [] = Node ''root'' ''Medical Document Overview'' []"
  by (simp add: mindmap_of_sentences_def select_topics_def assemble_def add_other_def)

text \<open>
  Claim C3.  When the splitter yields no sentence, the tree is the bare root: id
  \<open>root\<close>, text \<open>Medical Document Overview\<close>, no children (no topic node, no fallback
  topic, no \<open>node-other\<close>).  The model is total, so the function returns.  A summary
  that is empty or consists of whitespace only is such an input.
\<close>

theorem no_sentences_bare_root:
  "(split_sentences text = [] \<longrightarrow>
      mindmap_of_summary text = Node ''root'' ''Medical Document Overview'' [])
   \<and> ((\<forall>c\<in>set text. isspace c) \<longrightarrow> split_sentences text = [])"
  by (simp add: mindmap_of_summary_def no_sentences_tree whitespace_only_no_sentences)

theorem no_sentences_bare_root_witness:
  "list_all isspace ''  '' \<and> split_sentences ''  '' = []
   \<and> mindmap_of_summary ''  '' = Node ''root'' ''Medical Document Overview'' []"
proof -
  have ws: "\<forall>c\<in>set ''  ''. isspace c" by (simp add: isspace_def)
  then have "list_all isspace ''  ''" by (simp add: list_all_iff)
  moreover from no_sentences_bare_root [of "''  ''"] ws
  have "split_sentences ''  '' = []
      \<and> mindmap_of_summary ''  '' = Node ''root'' ''Medical Document Overview'' []"
    by blast
  ultimately show ?thesis by blast
qed

subsection \<open>Topic selection\<close>

lemma str_contains_iff_sublist: "str_contains needle haystack \<longleftrightarrow> sublist needle haystack"
  by (induction haystack) (auto simp: sublist_Cons_right)

text \<open>The keyword loop only asks whether some keyword occurs in the lower-cased sentence.\<close>

lemma scan_keywords_eq:
  "scan_keywords kws sentence main_topics =
     (if (\<exists>k\<in>set kws. str_contains k (lower sentence)) \<and> sentence \<notin> set main_topics
      then main_topics @ [sentence] else main_topics)"
  by (induction kws) auto

lemma scan_keywords_cong:
  "set kws = set kws' \<Longrightarrow>
     scan_keywords kws sentence main_topics = scan_keywords kws' sentence main_topics"
  by (simp add: scan_keywords_eq)

lemma scan_sentences_cong:
  "set kws = set kws' \<Longrightarrow>
     scan_sentences kws sentences main_topics = scan_sentences kws' sentences main_topics"
proof (induction sentences arbitrary: main_topics)
  case Nil
  show ?case by simp
next
  case (Cons s ss)
  then show ?case by (simp add: scan_keywords_cong [of kws kws'])
qed

lemma scan_sentences_no_match:
  "\<forall>s\<in>set sentences. \<forall>k\<in>set kws. \<not> str_contains k (lower s) \<Longrightarrow>
     scan_sentences kws sentences main_topics = main_topics"
  by (induction sentences arbitrary: main_topics) (auto simp: scan_keywords_eq)

text \<open>
  Claim C4.  For a non-empty sentence sequence in which no lower-cased sentence contains
  a keyword as a substring, the topic list is the first \<open>min 3 n\<close> sentences in their
  original order, \<open>n\<close> being the number of sentences.
\<close>

theorem fallback_topics:
  assumes "sentences \<noteq> []"
    and "\<forall>s\<in>set sentences. \<forall>k\<in>set kws. \<not> sublist k (lower s)"
  shows "select_topics kws sentences = take (min 3 (length sentences)) sentences"
  using assms by (simp add: select_topics_def scan_sentences_no_match str_contains_iff_sublist)

theorem fallback_topics_witness:
  "[''Hi.'', ''Ab c.'', ''B.'', ''Oh?''] \<noteq> []
   \<and> list_all (\<lambda>s. list_all (\<lambda>k. \<not> sublist k (lower s)) medical_keywords)
         [''Hi.'', ''Ab c.'', ''B.'', ''Oh?'']
   \<and> select_topics medical_keywords [''Hi.'', ''Ab c.'', ''B.'', ''Oh?'']
       = [''Hi.'', ''Ab c.'', ''B.'']"
proof -
  have ne: "[''Hi.'', ''Ab c.'', ''B.'', ''Oh?''] \<noteq> []" by simp
  have nm: "\<forall>s\<in>set [''Hi.'', ''Ab c.'', ''B.'', ''Oh?''].
              \<forall>k\<in>set medical_keywords. \<not> sublist k (lower s)"
    by (simp add: medical_keywords_def lower_def lower_char_def sublist_Cons_right)
  then have la: "list_all (\<lambda>s. list_all (\<lambda>k. \<not> sublist k (lower s)) medical_keywords)
         [''Hi.'', ''Ab c.'', ''B.'', ''Oh?'']"
    by (simp only: list_all_iff)
  from fallback_topics [OF ne nm]
  have "select_topics medical_keywords [''Hi.'', ''Ab c.'', ''B.'', ''Oh?'']
       = [''Hi.'', ''Ab c.'', ''B.'']"
    by simp
  with ne la show ?thesis by blast
qed

text \<open>
  Claim C9.  The topic list does not change when the keyword list is permuted: a
  sentence becomes a topic according to whether some keyword occurs in its lower-cased
  form, whichever keyword of the list matches first.
\<close>

theorem topics_keyword_order:
  assumes "mset kws' = mset kws"
  shows "select_topics kws' sentences = select_topics kws sentences"
proof -
  have "set kws' = set kws" using assms by (rule mset_eq_setD)
  then show ?thesis by (simp add: select_topics_def scan_sentences_cong [of kws' kws])
qed

theorem topics_keyword_order_witness:
  "mset [''cell'', ''organ''] = mset [''organ'', ''cell'']
   \<and> select_topics [''cell'', ''organ''] [''No.'', ''The Organ has cells.'', ''A cell.'']
       = select_topics [''organ'', ''cell''] [''No.'', ''The Organ has cells.'', ''A cell.'']"
proof -
  have p: "mset [''cell'', ''organ''] = mset [''organ'', ''cell'']" by simp
  from topics_keyword_order [OF p] p show ?thesis by blast
qed

subsection \<open>Node identifiers\<close>

lemma digit_char_inj: "a < 10 \<Longrightarrow> b < 10 \<Longrightarrow> digit_char a = digit_char b \<Longrightarrow> a = b"
proof -
  assume a: "a < 10" and b: "b < 10" and e: "digit_char a = digit_char b"
  from e have "(of_char (digit_char a) :: nat) = of_char (digit_char b)" by simp
  then have "(48 + a) mod 256 = (48 + b) mod 256" by (simp add: digit_char_def)
  with a b show "a = b" by simp
qed

lemma digit_char_code: "d < 10 \<Longrightarrow> (of_char (digit_char d) :: nat) = 48 + d"
  by (simp add: digit_char_def)

lemma str_of_nat_ne [simp]: "str_of_nat n \<noteq> []"
  by (subst str_of_nat.simps) simp

lemma str_of_nat_ne' [simp]: "[] \<noteq> str_of_nat n"
  by (subst str_of_nat.simps) simp

lemma str_of_nat_last: "last (str_of_nat n) = digit_char (n mod 10)"
  by (subst str_of_nat.simps) simp

lemma str_of_nat_butlast: "butlast (str_of_nat n) = (if n < 10 then [] else str_of_nat (n div 10))"
  by (subst str_of_nat.simps) simp

lemma str_of_nat_inj: "str_of_nat m = str_of_nat n \<Longrightarrow> m = n"
proof (induction n arbitrary: m rule: str_of_nat.induct)
  case (1 n)
  from "1.prems" have l: "digit_char (m mod 10) = digit_char (n mod 10)"
    by (metis str_of_nat_last)
  then have m10: "m mod 10 = n mod 10" by (auto intro: digit_char_inj)
  from "1.prems" have b: "butlast (str_of_nat m) = butlast (str_of_nat n)" by simp
  show ?case
  proof (cases "n < 10")
    case True
    with b have "m < 10" by (auto simp: str_of_nat_butlast split: if_splits)
    with True m10 show ?thesis by simp
  next
    case False
    with b have mge: "\<not> m < 10" and "str_of_nat (m div 10) = str_of_nat (n div 10)"
      by (auto simp: str_of_nat_butlast split: if_splits)
    with "1.IH" False have "m div 10 = n div 10" by blast
    with m10 show ?thesis by (metis div_mult_mod_eq)
  qed
qed

lemma str_of_nat_not_other: "str_of_nat i \<noteq> ''other''"
proof
  assume "str_of_nat i = ''other''"
  then have "last (str_of_nat i) = CHR ''r''" by simp
  then have "(of_char (digit_char (i mod 10)) :: nat) = of_char CHR ''r''"
    by (simp add: str_of_nat_last)
  then show False by (simp add: digit_char_code)
qed

lemma topic_id_not_other: "topic_id i \<noteq> ''node-other''"
  using str_of_nat_not_other [of i] by (simp add: topic_id_def)


lemma topic_id_inj: "topic_id j = topic_id k \<Longrightarrow> j = k"
  by (simp add: topic_id_def str_of_nat_inj)

lemma sub_id_inj: "sub_id i j = sub_id i k \<Longrightarrow> j = k"
  by (simp add: sub_id_def str_of_nat_inj)

subsection \<open>The assignment loops\<close>

lemma collect_other_eq:
  "collect_other ss used children =
     children @ map (\<lambda>(k, s). Leaf (other_id k) s)
                  (enumerate (length children) (filter (\<lambda>s. s \<notin> used) ss))"
  by (induction ss arbitrary: children) simp_all

lemma assign_subs_spec:
  "\<exists>picked. assign_subs i ss used added children
              = (children @ map (\<lambda>(j, s). Leaf (sub_id i j) s) (enumerate added picked),
                 used \<union> set picked)
     \<and> subseq picked ss \<and> distinct picked \<and> set picked \<inter> used = {}
     \<and> added + length picked \<le> max added 3"
proof (induction ss arbitrary: used added children)
  case Nil
  show ?case by (rule exI [of _ "[]"]) simp
next
  case (Cons s ss)
  show ?case
  proof (cases "s \<notin> used \<and> added < 3")
    case True
    from Cons.IH [of "insert s used" "added + 1" "children @ [Leaf (sub_id i added) s]"]
    obtain picked where p:
      "assign_subs i ss (insert s used) (added + 1) (children @ [Leaf (sub_id i added) s])
         = ((children @ [Leaf (sub_id i added) s])
              @ map (\<lambda>(j, s). Leaf (sub_id i j) s) (enumerate (added + 1) picked),
            insert s used \<union> set picked)"
      "subseq picked ss" "distinct picked" "set picked \<inter> insert s used = {}"
      "added + 1 + length picked \<le> max (added + 1) 3"
      by blast
    show ?thesis
    proof (rule exI [of _ "s # picked"], intro conjI)
      show "assign_subs i (s # ss) used added children
              = (children @ map (\<lambda>(j, s). Leaf (sub_id i j) s) (enumerate added (s # picked)),
                 used \<union> set (s # picked))"
        using True p(1) by simp
      show "subseq (s # picked) (s # ss)" using p(2) by simp
      show "distinct (s # picked)" using p(3,4) by auto
      show "set (s # picked) \<inter> used = {}" using p(4) True by auto
      show "added + length (s # picked) \<le> max added 3" using p(5) True by simp
    qed
  next
    case False
    from Cons.IH [of used added children]
    obtain picked where p:
      "assign_subs i ss used added children
         = (children @ map (\<lambda>(j, s). Leaf (sub_id i j) s) (enumerate added picked),
            used \<union> set picked)"
      "subseq picked ss" "distinct picked" "set picked \<inter> used = {}"
      "added + length picked \<le> max added 3"
      by blast
    show ?thesis
    proof (rule exI [of _ picked], intro conjI)
      show "assign_subs i (s # ss) used added children
              = (children @ map (\<lambda>(j, s). Leaf (sub_id i j) s) (enumerate added picked),
                 used \<union> set picked)"
        using False p(1) by auto
      show "subseq picked (s # ss)" using p(2) by (rule list_emb_Cons)
    qed (use p in auto)
  qed
qed

lemma subseq_set: "subseq xs ys \<Longrightarrow> set xs \<subseteq> set ys"
  by (induction rule: list_emb.induct) auto

lemma ids_enumerate:
  "map node_id (map (\<lambda>(j, s). Leaf (f j) s) (enumerate n xs)) = map f [n..<n + length xs]"
proof -
  have "map node_id (map (\<lambda>(j, s). Leaf (f j) s) ys) = map f (map fst ys)"
    for ys :: "(nat \<times> string) list"
    by (induction ys) auto
  from this [of "enumerate n xs"] show ?thesis
    by (simp only: map_fst_enumerate)
qed

lemma texts_enumerate:
  "map node_text (map (\<lambda>(j, s). Leaf (f j) s) (enumerate n xs)) = xs"
  by (induction xs arbitrary: n) simp_all

lemma leaves_enumerate:
  "\<forall>c\<in>set (map (\<lambda>(j, s). Leaf (f j) s) (enumerate n xs)). node_children c = []"
  by (induction xs arbitrary: n) simp_all

lemma assign_subs_props:
  assumes "assign_subs i ss used 0 [] = (ch, used')"
  shows "length ch \<le> 3"
    and "map node_id ch = map (sub_id i) [0..<length ch]"
    and "subseq (map node_text ch) ss"
    and "distinct (map node_text ch)"
    and "set (map node_text ch) \<inter> used = {}"
    and "used' = used \<union> set (map node_text ch)"
    and "\<forall>c\<in>set ch. node_children c = []"
proof -
  from assign_subs_spec [of i ss used 0 "[]"] assms
  obtain picked where ch: "ch = map (\<lambda>(j, s). Leaf (sub_id i j) s) (enumerate 0 picked)"
    and u: "used' = used \<union> set picked"
    and p: "subseq picked ss" "distinct picked" "set picked \<inter> used = {}" "length picked \<le> 3"
    by auto
  have t: "map node_text ch = picked" unfolding ch by (rule texts_enumerate)
  have l: "length ch = length picked" unfolding ch by simp
  show "length ch \<le> 3" using l p(4) by simp
  show "map node_id ch = map (sub_id i) [0..<length ch]"
    unfolding l unfolding ch using ids_enumerate [of "sub_id i" 0 picked] by simp
  show "subseq (map node_text ch) ss" using t p(1) by simp
  show "distinct (map node_text ch)" using t p(2) by simp
  show "set (map node_text ch) \<inter> used = {}" using t p(3) by simp
  show "used' = used \<union> set (map node_text ch)" using t u by simp
  show "\<forall>c\<in>set ch. node_children c = []" unfolding ch by (rule leaves_enumerate)
qed

lemma assign_topics_spec:
  "\<exists>new used'. assign_topics i ts ss used rc = (rc @ new, used')
     \<and> length new = length ts
     \<and> (\<forall>k<length ts.
           node_id (new ! k) = topic_id (i + k) \<and> node_text (new ! k) = ts ! k
         \<and> length (node_children (new ! k)) \<le> 3
         \<and> map node_id (node_children (new ! k))
             = map (sub_id (i + k)) [0..<length (node_children (new ! k))]
         \<and> subseq (map node_text (node_children (new ! k))) ss
         \<and> (\<forall>c\<in>set (node_children (new ! k)). node_children c = []))
     \<and> used \<union> set ts \<subseteq> used' \<and> used' \<subseteq> used \<union> set ts \<union> set ss"
proof (induction ts arbitrary: i used rc)
  case Nil
  show ?case by simp
next
  case (Cons t ts)
  obtain ch u1 where s: "assign_subs i ss (insert t used) 0 [] = (ch, u1)"
    by (cases "assign_subs i ss (insert t used) 0 []") blast
  note sp = assign_subs_props [OF s]
  from Cons.IH [of "i + 1" u1 "rc @ [Node (topic_id i) t ch]"]
  obtain new used' where n:
    "assign_topics (i + 1) ts ss u1 (rc @ [Node (topic_id i) t ch])
       = ((rc @ [Node (topic_id i) t ch]) @ new, used')"
    "length new = length ts"
    "\<forall>k<length ts.
           node_id (new ! k) = topic_id (i + 1 + k) \<and> node_text (new ! k) = ts ! k
         \<and> length (node_children (new ! k)) \<le> 3
         \<and> map node_id (node_children (new ! k))
             = map (sub_id (i + 1 + k)) [0..<length (node_children (new ! k))]
         \<and> subseq (map node_text (node_children (new ! k))) ss
         \<and> (\<forall>c\<in>set (node_children (new ! k)). node_children c = [])"
    "u1 \<union> set ts \<subseteq> used'" "used' \<subseteq> u1 \<union> set ts \<union> set ss"
    by blast
  have sub: "set (map node_text ch) \<subseteq> set ss"
    using sp(3) by (rule subseq_set)
  show ?case
  proof (intro exI [of _ "Node (topic_id i) t ch # new"] exI [of _ used'] conjI allI impI)
    show "assign_topics i (t # ts) ss used rc = (rc @ Node (topic_id i) t ch # new, used')"
      using s n(1) by simp
    show "length (Node (topic_id i) t ch # new) = length (t # ts)" using n(2) by simp
    show "used \<union> set (t # ts) \<subseteq> used'" using n(4) sp(6) by auto
    show "used' \<subseteq> used \<union> set (t # ts) \<union> set ss" using n(5) sp(6) sub by auto
  next
    fix k assume k: "k < length (t # ts)"
    let ?new = "Node (topic_id i) t ch # new"
    show "node_id (?new ! k) = topic_id (i + k)"
      using k n(3) by (cases k) auto
    show "node_text (?new ! k) = (t # ts) ! k"
      using k n(3) by (cases k) auto
    show "length (node_children (?new ! k)) \<le> 3"
      using k n(3) sp(1) by (cases k) auto
    show "map node_id (node_children (?new ! k))
             = map (sub_id (i + k)) [0..<length (node_children (?new ! k))]"
      using k n(3) sp(2) by (cases k) auto
    show "subseq (map node_text (node_children (?new ! k))) ss"
      using k n(3) sp(3) by (cases k) auto
    show "\<forall>c\<in>set (node_children (?new ! k)). node_children c = []"
      using k n(3) sp(7) by (cases k) auto
  qed
qed

subsection \<open>The shape of the tree\<close>

lemma scan_sentences_subset:
  "set (scan_sentences kws ss main_topics) \<subseteq> set main_topics \<union> set ss"
proof (induction ss arbitrary: main_topics)
  case Nil
  show ?case by simp
next
  case (Cons s ss)
  have "set (scan_keywords kws s main_topics) \<subseteq> set main_topics \<union> {s}"
    by (auto simp: scan_keywords_eq)
  with Cons.IH [of "scan_keywords kws s main_topics"] show ?case by auto
qed

lemma enumerate_Nil_iff: "enumerate n xs = [] \<longleftrightarrow> xs = []"
  by (cases xs) simp_all

lemma select_topics_subset: "set (select_topics kws ss) \<subseteq> set ss"
proof -
  have "set (take (min 3 (length ss)) ss) \<subseteq> set ss" by (rule set_take_subset)
  moreover have "set (scan_sentences kws ss []) \<subseteq> set ss"
    using scan_sentences_subset [of kws ss "[]"] by simp
  ultimately show ?thesis by (simp add: select_topics_def Let_def)
qed

lemma used_sentences_subset: "set ts \<subseteq> set ss \<Longrightarrow> used_sentences ss ts \<subseteq> set ss"
  using assign_topics_spec [of 0 ts ss "{}" "[]"] by (auto simp: used_sentences_def)

lemma unused_card:
  assumes "used \<subseteq> set ss" and "s \<in> set ss" and "s \<notin> used"
  shows "card used < length ss"
proof -
  have "used \<subseteq> set ss - {s}" using assms by blast
  then have "card used \<le> card (set ss - {s})" by (intro card_mono) auto
  also have "\<dots> < card (set ss)" using assms(2) by (intro card_Diff1_less) auto
  also have "\<dots> \<le> length ss" by (rule card_length)
  finally show ?thesis .
qed

lemma add_other_eq:
  assumes "used \<subseteq> set ss"
  shows "add_other ss used rc =
     (if filter (\<lambda>s. s \<notin> used) ss = [] then rc
      else rc @ [Node ''node-other'' ''Other Details''
                   (map (\<lambda>(k, s). Leaf (other_id k) s)
                      (enumerate 0 (filter (\<lambda>s. s \<notin> used) ss)))])"
proof (cases "filter (\<lambda>s. s \<notin> used) ss = []")
  case True
  then show ?thesis by (simp add: add_other_def collect_other_eq)
next
  case False
  then obtain s where "s \<in> set ss" "s \<notin> used" by (auto simp: filter_empty_conv)
  with assms have "card used < length ss" by (rule unused_card)
  with False show ?thesis by (simp add: add_other_def collect_other_eq enumerate_Nil_iff)
qed

lemma assemble_children:
  assumes "set ts \<subseteq> set ss"
  shows "\<exists>new. length new = length ts
     \<and> (\<forall>k<length ts.
           node_id (new ! k) = topic_id k \<and> node_text (new ! k) = ts ! k
         \<and> length (node_children (new ! k)) \<le> 3
         \<and> map node_id (node_children (new ! k))
             = map (sub_id k) [0..<length (node_children (new ! k))]
         \<and> subseq (map node_text (node_children (new ! k))) ss
         \<and> (\<forall>c\<in>set (node_children (new ! k)). node_children c = []))
     \<and> node_children (assemble ss ts) =
         new @ (if filter (\<lambda>s. s \<notin> used_sentences ss ts) ss = [] then []
                else [Node ''node-other'' ''Other Details''
                        (map (\<lambda>(k, s). Leaf (other_id k) s)
                           (enumerate 0 (filter (\<lambda>s. s \<notin> used_sentences ss ts) ss)))])"
proof -
  from assign_topics_spec [of 0 ts ss "{}" "[]"]
  obtain new used' where a: "assign_topics 0 ts ss {} [] = (new, used')"
    and l: "length new = length ts"
    and p: "\<forall>k<length ts.
           node_id (new ! k) = topic_id k \<and> node_text (new ! k) = ts ! k
         \<and> length (node_children (new ! k)) \<le> 3
         \<and> map node_id (node_children (new ! k))
             = map (sub_id k) [0..<length (node_children (new ! k))]
         \<and> subseq (map node_text (node_children (new ! k))) ss
         \<and> (\<forall>c\<in>set (node_children (new ! k)). node_children c = [])"
    by auto
  have u: "used_sentences ss ts = used'" using a by (simp add: used_sentences_def)
  have "used' \<subseteq> set ss" using used_sentences_subset [OF assms] u by simp
  then have "node_children (assemble ss ts) =
         new @ (if filter (\<lambda>s. s \<notin> used') ss = [] then []
                else [Node ''node-other'' ''Other Details''
                        (map (\<lambda>(k, s). Leaf (other_id k) s)
                           (enumerate 0 (filter (\<lambda>s. s \<notin> used') ss)))])"
    using a by (simp add: assemble_def add_other_eq)
  with l p u show ?thesis by blast
qed

lemma topic_nodes_general:
  assumes "i < length (select_topics kws ss)"
  shows "i < length (node_children (mindmap_of_sentences kws ss))
     \<and> node_id (node_children (mindmap_of_sentences kws ss) ! i) = topic_id i
     \<and> node_text (node_children (mindmap_of_sentences kws ss) ! i) = select_topics kws ss ! i
     \<and> length (node_children (node_children (mindmap_of_sentences kws ss) ! i)) \<le> 3
     \<and> map node_id (node_children (node_children (mindmap_of_sentences kws ss) ! i))
         = map (sub_id i)
             [0..<length (node_children (node_children (mindmap_of_sentences kws ss) ! i))]
     \<and> subseq (map node_text (node_children (node_children (mindmap_of_sentences kws ss) ! i))) ss"
proof -
  let ?ts = "select_topics kws ss"
  from assemble_children [OF select_topics_subset [of kws ss]]
  obtain new tail where l: "length new = length ?ts"
    and p: "\<forall>k<length ?ts.
           node_id (new ! k) = topic_id k \<and> node_text (new ! k) = ?ts ! k
         \<and> length (node_children (new ! k)) \<le> 3
         \<and> map node_id (node_children (new ! k))
             = map (sub_id k) [0..<length (node_children (new ! k))]
         \<and> subseq (map node_text (node_children (new ! k))) ss
         \<and> (\<forall>c\<in>set (node_children (new ! k)). node_children c = [])"
    and c: "node_children (assemble ss ?ts) = new @ tail"
    by blast
  have cs: "node_children (mindmap_of_sentences kws ss) = new @ tail"
    using c by (simp add: mindmap_of_sentences_def)
  have n: "(new @ tail) ! i = new ! i" using assms l by (simp add: nth_append)
  show ?thesis unfolding cs n using assms l p by simp
qed

lemma other_node_general:
  fixes kws ss
  defines "cs \<equiv> node_children (mindmap_of_sentences kws ss)"
    and "used \<equiv> used_sentences ss (select_topics kws ss)"
  shows "((\<exists>n\<in>set cs. node_id n = ''node-other'') \<longleftrightarrow> (\<exists>s\<in>set ss. s \<notin> used))"
    and "\<exists>s\<in>set ss. s \<notin> used \<Longrightarrow>
          cs \<noteq> [] \<and> length cs = length (select_topics kws ss) + 1
          \<and> last cs = Node ''node-other'' ''Other Details''
                (map (\<lambda>(k, s). Leaf (other_id k) s) (enumerate 0 (filter (\<lambda>s. s \<notin> used) ss)))"
    and "\<not> (\<exists>s\<in>set ss. s \<notin> used) \<Longrightarrow> length cs = length (select_topics kws ss)"
proof -
  let ?ts = "select_topics kws ss"
  let ?unused = "filter (\<lambda>s. s \<notin> used) ss"
  let ?other = "Node ''node-other'' ''Other Details''
                  (map (\<lambda>(k, s). Leaf (other_id k) s) (enumerate 0 ?unused))"
  from assemble_children [OF select_topics_subset [of kws ss]]
  obtain new where l: "length new = length ?ts"
    and p: "\<forall>k<length ?ts. node_id (new ! k) = topic_id k"
    and c: "cs = new @ (if ?unused = [] then [] else [?other])"
    unfolding cs_def used_def mindmap_of_sentences_def by blast
  have new: "\<forall>n\<in>set new. node_id n \<noteq> ''node-other''"
  proof
    fix n assume "n \<in> set new"
    then obtain k where "k < length new" "n = new ! k" by (auto simp: in_set_conv_nth)
    with l p have "node_id n = topic_id k" by simp
    then show "node_id n \<noteq> ''node-other''" by (simp add: topic_id_not_other)
  qed
  have e: "(\<exists>s\<in>set ss. s \<notin> used) \<longleftrightarrow> ?unused \<noteq> []" by (auto simp: filter_empty_conv)
  show "((\<exists>n\<in>set cs. node_id n = ''node-other'') \<longleftrightarrow> (\<exists>s\<in>set ss. s \<notin> used))"
    unfolding e using new c by auto
  show "cs \<noteq> [] \<and> length cs = length ?ts + 1 \<and> last cs = ?other" if "\<exists>s\<in>set ss. s \<notin> used"
    using that e c l by simp
  show "length cs = length ?ts" if "\<not> (\<exists>s\<in>set ss. s \<notin> used)"
    using that e c l by simp
qed

subsection \<open>A small summary, evaluated\<close>

lemma small_sentences:
  "split_sentences ''A cell. B. C. D. E. E.'' = [''A cell.'', ''B.'', ''C.'', ''D.'', ''E.'', ''E.'']"
  by code_simp

lemma small_topics: "topics_of_summary ''A cell. B. C. D. E. E.'' = [''A cell.'']"
  unfolding topics_of_summary_def small_sentences by code_simp

lemma small_used: "''E.'' \<notin> used_of_summary ''A cell. B. C. D. E. E.''"
  unfolding used_of_summary_def small_topics small_sentences by code_simp

lemma small_tree:
  "mindmap_of_summary ''A cell. B. C. D. E. E.'' =
     Node ''root'' ''Medical Document Overview''
       [Node ''node-0'' ''A cell.''
          [Leaf ''node-0-sub-0'' ''B.'', Leaf ''node-0-sub-1'' ''C.'', Leaf ''node-0-sub-2'' ''D.''],
        Node ''node-other'' ''Other Details''
          [Leaf ''node-other-sub-0'' ''E.'', Leaf ''node-other-sub-1'' ''E.'']]"
  unfolding mindmap_of_summary_def small_sentences by code_simp

subsection \<open>Topic nodes and the catch-all node\<close>




text \<open>
  Claim C6.  The node \<open>node-other\<close> with text \<open>Other Details\<close> is a child of the root
  exactly when some sentence is still unused after the topic loop.  When it is present
  it is the last child of the root, after the topic nodes, and its children are the
  unused sentences in their original order, all of them, with the ids
  \<open>node-other-sub-k\<close> for \<open>k = 0, 1, 2, ...\<close>.  When no sentence is unused the root has
  the topic nodes only.
\<close>

theorem other_details_node:
  "((\<exists>n\<in>set (node_children (mindmap_of_summary text)). node_id n = ''node-other'')
      \<longleftrightarrow> (\<exists>s\<in>set (split_sentences text). s \<notin> used_of_summary text))
   \<and> ((\<exists>s\<in>set (split_sentences text). s \<notin> used_of_summary text) \<longrightarrow>
         node_children (mindmap_of_summary text) \<noteq> []
       \<and> length (node_children (mindmap_of_summary text)) = length (topics_of_summary text) + 1
       \<and> last (node_children (mindmap_of_summary text))
           = Node ''node-other'' ''Other Details''
               (map (\<lambda>(k, s). Leaf (other_id k) s) (enumerate 0 (unused_of_summary text)))
       \<and> (\<forall>n\<in>set (butlast (node_children (mindmap_of_summary text))).
             node_id n \<noteq> ''node-other''))
   \<and> (\<not> (\<exists>s\<in>set (split_sentences text). s \<notin> used_of_summary text) \<longrightarrow>
         length (node_children (mindmap_of_summary text)) = length (topics_of_summary text))"
proof -
  let ?cs = "node_children (mindmap_of_summary text)"
  let ?un = "\<exists>s\<in>set (split_sentences text). s \<notin> used_of_summary text"
  note defs = mindmap_of_summary_def topics_of_summary_def used_of_summary_def
    unused_of_summary_def
  note g = other_node_general [where kws = medical_keywords and ss = "split_sentences text"]
  have g1: "(\<exists>n\<in>set ?cs. node_id n = ''node-other'') \<longleftrightarrow> ?un"
    using g(1) by (simp add: defs)
  have g2: "?cs \<noteq> [] \<and> length ?cs = length (topics_of_summary text) + 1
      \<and> last ?cs = Node ''node-other'' ''Other Details''
            (map (\<lambda>(k, s). Leaf (other_id k) s) (enumerate 0 (unused_of_summary text)))"
    if ?un
    using g(2) that by (simp add: defs)
  have g3: "length ?cs = length (topics_of_summary text)" if "\<not> ?un"
    using g(3) that by (simp add: defs)
  have "\<forall>n\<in>set (butlast ?cs). node_id n \<noteq> ''node-other''" if u: ?un
  proof
    fix n assume n: "n \<in> set (butlast ?cs)"
    from g2 [OF u] have l: "length ?cs = length (topics_of_summary text) + 1" by simp
    from n obtain i where i: "i < length (butlast ?cs)" "n = butlast ?cs ! i"
      by (auto simp: in_set_conv_nth)
    then have "i < length (topics_of_summary text)" using l by simp
    then have "node_id (?cs ! i) = topic_id i"
      using topic_nodes_general [of i medical_keywords "split_sentences text"]
      by (simp add: mindmap_of_summary_def topics_of_summary_def)
    moreover have "n = ?cs ! i" using i by (simp add: nth_butlast)
    ultimately show "node_id n \<noteq> ''node-other''" by (simp add: topic_id_not_other)
  qed
  with g1 g2 g3 show ?thesis by blast
qed

theorem other_details_node_witness:
  "(\<exists>s\<in>set (split_sentences ''A cell. B. C. D. E. E.'').
       s \<notin> used_of_summary ''A cell. B. C. D. E. E.'')
   \<and> (\<exists>n\<in>set (node_children (mindmap_of_summary ''A cell. B. C. D. E. E.'')).
         node_id n = ''node-other'')
   \<and> last (node_children (mindmap_of_summary ''A cell. B. C. D. E. E.''))
       = Node ''node-other'' ''Other Details''
           [Leaf ''node-other-sub-0'' ''E.'', Leaf ''node-other-sub-1'' ''E.'']"
proof -
  have u: "\<exists>s\<in>set (split_sentences ''A cell. B. C. D. E. E.'').
             s \<notin> used_of_summary ''A cell. B. C. D. E. E.''"
    using small_used by (auto simp: small_sentences)
  from other_details_node [of "''A cell. B. C. D. E. E.''"] u
  have "\<exists>n\<in>set (node_children (mindmap_of_summary ''A cell. B. C. D. E. E.'')).
         node_id n = ''node-other''"
    by blast
  with u show ?thesis by (simp add: small_tree)
qed






subsection \<open>The example of the specification, evaluated\<close>

lemma example_sentences:
  "split_sentences
     ''Patient has a rare syndrome. It affects the liver. Treatment is ongoing. Weather was sunny. Final note here.''
   = [''Patient has a rare syndrome.'', ''It affects the liver.'', ''Treatment is ongoing.'',
      ''Weather was sunny.'', ''Final note here.'']"
  by code_simp

lemma example_topics:
  "topics_of_summary
     ''Patient has a rare syndrome. It affects the liver. Treatment is ongoing. Weather was sunny. Final note here.''
   = [''Patient has a rare syndrome.'', ''Treatment is ongoing.'']"
  unfolding topics_of_summary_def example_sentences by code_simp

lemma example_tree:
  "mindmap_of_summary
     ''Patient has a rare syndrome. It affects the liver. Treatment is ongoing. Weather was sunny. Final note here.''
   = Node ''root'' ''Medical Document Overview''
       [Node ''node-0'' ''Patient has a rare syndrome.''
          [Leaf ''node-0-sub-0'' ''It affects the liver.'',
           Leaf ''node-0-sub-1'' ''Treatment is ongoing.'',
           Leaf ''node-0-sub-2'' ''Weather was sunny.''],
        Node ''node-1'' ''Treatment is ongoing.''
          [Leaf ''node-1-sub-0'' ''Final note here.'']]"
  unfolding mindmap_of_summary_def mindmap_of_sentences_def
    example_topics [unfolded topics_of_summary_def] example_sentences
  by code_simp

text \<open>
  Claim C1 asks that no sentence string is the text of two nodes.  On the example of
  the specification the code makes \<open>Treatment is ongoing.\<close> the text of the sub-node
  \<open>node-0-sub-1\<close> and of the topic node \<open>node-1\<close>: a topic sentence enters the used-set
  only when its own node is created, so an earlier topic takes it as a sub-node.
\<close>

theorem example_sentence_in_two_nodes:
  "Leaf ''node-0-sub-1'' ''Treatment is ongoing.''
     \<in> set (nodes_below (mindmap_of_summary
         ''Patient has a rare syndrome. It affects the liver. Treatment is ongoing. Weather was sunny. Final note here.''))
   \<and> Node ''node-1'' ''Treatment is ongoing.'' [Leaf ''node-1-sub-0'' ''Final note here.'']
     \<in> set (nodes_below (mindmap_of_summary
         ''Patient has a rare syndrome. It affects the liver. Treatment is ongoing. Weather was sunny. Final note here.''))
   \<and> \<not> distinct (map node_text (nodes_below (mindmap_of_summary
         ''Patient has a rare syndrome. It affects the liver. Treatment is ongoing. Weather was sunny. Final note here.'')))"
  unfolding example_tree by simp

text \<open>
  Claim C2 gives the tree of the example.  The code yields the five sentences and the two
  topics of the claim and no \<open>node-other\<close>, but the children of \<open>node-0\<close> are the second,
  third and fourth sentence (the third being the second topic), and \<open>node-1\<close> has the
  fifth sentence as its child.
\<close>

theorem example_as_computed:
  "length (split_sentences
     ''Patient has a rare syndrome. It affects the liver. Treatment is ongoing. Weather was sunny. Final note here.'') = 5
   \<and> topics_of_summary
     ''Patient has a rare syndrome. It affects the liver. Treatment is ongoing. Weather was sunny. Final note here.''
       = [''Patient has a rare syndrome.'', ''Treatment is ongoing.'']
   \<and> map (\<lambda>n. (node_id n, map node_text (node_children n)))
        (node_children (mindmap_of_summary
     ''Patient has a rare syndrome. It affects the liver. Treatment is ongoing. Weather was sunny. Final note here.''))
       = [(''node-0'', [''It affects the liver.'', ''Treatment is ongoing.'', ''Weather was sunny.'']),
          (''node-1'', [''Final note here.''])]"
  unfolding example_tree example_topics example_sentences by simp

subsection \<open>Runs and the order of the used-set\<close>

lemma set_table_add: "set (table_add hash x table) = insert x (set table)"
proof (cases "x \<in> set table")
  case True
  then show ?thesis by (auto simp: table_add_def)
next
  case False
  let ?k = "hash x mod (length table + 1)"
  have "set (take ?k table) \<union> set (drop ?k table) = set table"
    by (metis append_take_drop_id set_append)
  then have "set (take ?k table @ x # drop ?k table) = insert x (set table)"
    by auto
  then show ?thesis using False by (simp only: table_add_def if_False)
qed

lemma distinct_table_add: "distinct table \<Longrightarrow> distinct (table_add hash x table)"
proof (cases "x \<in> set table")
  case True
  assume "distinct table"
  with True show ?thesis by (simp add: table_add_def)
next
  case False
  assume d: "distinct table"
  let ?k = "hash x mod (length table + 1)"
  have "distinct (take ?k table) \<and> distinct (drop ?k table)
      \<and> set (take ?k table) \<inter> set (drop ?k table) = {}"
    using d by (metis append_take_drop_id distinct_append)
  moreover have "x \<notin> set (take ?k table)" "x \<notin> set (drop ?k table)"
    using False by (auto dest: in_set_takeD in_set_dropD)
  ultimately have "distinct (take ?k table @ x # drop ?k table)" by auto
  then show ?thesis using False by (simp only: table_add_def if_False)
qed

lemma table_len_card: "distinct table \<Longrightarrow> table_len table = card (set table)"
  by (simp add: table_len_def distinct_card)

lemma run_assign_subs_sim:
  "distinct used \<Longrightarrow>
     fst (run_assign_subs hash i ss used added children)
       = fst (assign_subs i ss (set used) added children)
   \<and> set (snd (run_assign_subs hash i ss used added children))
       = snd (assign_subs i ss (set used) added children)
   \<and> distinct (snd (run_assign_subs hash i ss used added children))"
proof (induction ss arbitrary: used added children)
  case Nil
  then show ?case by simp
next
  case (Cons s ss)
  show ?case
  proof (cases "s \<notin> set used \<and> added < 3")
    case True
    have d: "distinct (table_add hash s used)" using Cons.prems by (rule distinct_table_add)
    from Cons.IH [OF d, of "added + 1" "children @ [Leaf (sub_id i added) s]"] True
    show ?thesis by (simp add: table_contains_def set_table_add)
  next
    case False
    from Cons.IH [OF Cons.prems, of added children] False
    show ?thesis by (auto simp: table_contains_def)
  qed
qed

lemma run_assign_topics_sim:
  "distinct used \<Longrightarrow>
     fst (run_assign_topics hash i ts ss used rc) = fst (assign_topics i ts ss (set used) rc)
   \<and> set (snd (run_assign_topics hash i ts ss used rc))
       = snd (assign_topics i ts ss (set used) rc)
   \<and> distinct (snd (run_assign_topics hash i ts ss used rc))"
proof (induction ts arbitrary: i used rc)
  case Nil
  then show ?case by simp
next
  case (Cons t ts)
  let ?u = "table_add hash t used"
  have d: "distinct ?u" using Cons.prems by (rule distinct_table_add)
  obtain ch u1 where r: "run_assign_subs hash i ss ?u 0 [] = (ch, u1)"
    by (cases "run_assign_subs hash i ss ?u 0 []") blast
  obtain ch' u1' where a: "assign_subs i ss (insert t (set used)) 0 [] = (ch', u1')"
    by (cases "assign_subs i ss (insert t (set used)) 0 []") blast
  from run_assign_subs_sim [OF d, of hash i ss 0 "[]"] r a
  have e: "ch = ch'" "set u1 = u1'" "distinct u1" by (simp_all add: set_table_add)
  from Cons.IH [OF e(3), of "i + 1" "rc @ [Node (topic_id i) t ch]"] r a e(1,2)
  show ?case by simp
qed

lemma run_collect_other_sim:
  "run_collect_other ss used children = collect_other ss (set used) children"
  by (induction ss arbitrary: children) (simp_all add: table_contains_def)

lemma run_add_other_sim:
  "distinct used \<Longrightarrow> run_add_other ss used rc = add_other ss (set used) rc"
  by (simp add: run_add_other_def add_other_def run_collect_other_sim table_len_card)

text \<open>Every run computes the tree of the set-based model.\<close>

lemma run_mindmap_sim: "run_mindmap hash full_summary = mindmap_of_summary full_summary"
proof -
  let ?ss = "split_sentences full_summary"
  let ?ts = "select_topics medical_keywords ?ss"
  obtain rc u where r: "run_assign_topics hash 0 ?ts ?ss [] [] = (rc, u)"
    by (cases "run_assign_topics hash 0 ?ts ?ss [] []") blast
  obtain rc' u' where a: "assign_topics 0 ?ts ?ss {} [] = (rc', u')"
    by (cases "assign_topics 0 ?ts ?ss {} []") blast
  from run_assign_topics_sim [of "[]" hash 0 ?ts ?ss "[]"] r a
  have e: "rc = rc'" "set u = u'" "distinct u" by simp_all
  have "run_add_other ?ss u rc = add_other ?ss u' rc'"
    using run_add_other_sim [OF e(3), of ?ss rc] e(1,2) by simp
  then show ?thesis
    using r a by (simp add: run_mindmap_def mindmap_of_summary_def mindmap_of_sentences_def
        assemble_def)
qed

text \<open>
  Claim C8.  Two runs of lines 93 to 160 on equal summary texts return the same tree,
  node ids, node texts and order of children alike, whatever the string hash of either
  run does to the order of the used-set: the code asks the set only whether a sentence
  is in it and how many entries it has.  Both runs return the tree of the set-based
  model.
\<close>

theorem runs_agree:
  "text1 = text2 \<Longrightarrow>
     run_mindmap hash1 text1 = run_mindmap hash2 text2
   \<and> run_mindmap hash1 text1 = mindmap_of_summary text1"
  by (simp add: run_mindmap_sim)

lemma small_tables:
  "run_used length ''A cell. B. C. D. E. E.'' = [''B.'', ''A cell.'', ''D.'', ''C.'']"
  "run_used (\<lambda>s. 0) ''A cell. B. C. D. E. E.'' = [''D.'', ''C.'', ''B.'', ''A cell.'']"
  unfolding run_used_def small_sentences by code_simp+

theorem runs_agree_witness:
  "''A cell. B. C. D. E. E.'' = ''A cell. B. C. D. E. E.''
   \<and> run_used length ''A cell. B. C. D. E. E.'' \<noteq> run_used (\<lambda>s. 0) ''A cell. B. C. D. E. E.''
   \<and> run_mindmap length ''A cell. B. C. D. E. E.''
       = run_mindmap (\<lambda>s. 0) ''A cell. B. C. D. E. E.''"
proof -
  have e: "''A cell. B. C. D. E. E.'' = ''A cell. B. C. D. E. E.''" by simp
  have t: "run_used length ''A cell. B. C. D. E. E.''
             \<noteq> run_used (\<lambda>s. 0) ''A cell. B. C. D. E. E.''"
    unfolding small_tables by simp
  from runs_agree [OF e, of length "\<lambda>s. 0"] e t show ?thesis by blast
qed

subsection \<open>The splitter against the splitting rule\<close>

lemma glue_ne [simp]: "glue c ps \<noteq> []"
  by (cases ps) simp_all

lemma break_ne [simp]: "break_after_terminator t \<noteq> []"
  by (cases t rule: break_after_terminator.cases) simp_all

lemma glue_hd_tl: "ps \<noteq> [] \<Longrightarrow> glue c ps = (c # hd ps) # tl ps"
  by (cases ps) simp_all

lemma re_split_from_break:
  "match_at behind rest = None \<Longrightarrow>
     re_split_from behind piece rest
       = (rev piece @ hd (break_after_terminator rest)) # tl (break_after_terminator rest)"
proof (induction rest arbitrary: behind piece rule: break_after_terminator.induct)
  case 1
  then show ?case by (simp add: re_split_from.simps [of behind piece "[]"])
next
  case (2 c)
  then show ?case
    by (simp add: re_split_from.simps [of behind piece "[c]"]
        re_split_from.simps [of "c # behind" "c # piece" "[]"])
next
  case (3 c d cs)
  have step: "re_split_from behind piece (c # d # cs)
                = re_split_from (c # behind) (c # piece) (d # cs)"
    using "3.prems" by (simp add: re_split_from.simps [of behind piece "c # d # cs"])
  show ?case
  proof (cases "is_terminator c \<and> isspace d")
    case True
    let ?behind = "rev (takeWhile isspace (d # cs)) @ c # behind"
    let ?rest = "dropWhile isspace cs"
    have m: "match_at (c # behind) (d # cs) = Some ?rest"
      using True by (simp add: match_at_Some_iff)
    have "?behind \<noteq> [] \<and> isspace (hd ?behind)"
      using True by (simp add: hd_append hd_rev last_in_set)
        (metis (mono_tags) last_in_set set_takeWhileD)
    then have n: "match_at ?behind ?rest = None"
      using terminator_not_space by (auto simp: match_at_None_iff)
    have "re_split_from (c # behind) (c # piece) (d # cs)
            = rev (c # piece) # re_split_from ?behind [] ?rest"
      using m by (simp add: re_split_from.simps [of "c # behind" "c # piece" "d # cs"])
    also have "re_split_from ?behind [] ?rest = break_after_terminator ?rest"
      using "3.IH"(1) [OF True n, of "[]"] by simp
    finally show ?thesis using True step by simp
  next
    case False
    then have n: "match_at (c # behind) (d # cs) = None"
      by (auto simp: match_at_None_iff)
    have b: "break_after_terminator (c # d # cs) = glue c (break_after_terminator (d # cs))"
      using False by auto
    from "3.IH"(2) [OF False n, of "c # piece"] step show ?thesis
      unfolding b by (simp add: glue_hd_tl)
  qed
qed

lemma re_split_break: "re_split text = break_after_terminator text"
  using re_split_from_break [of "[]" "text" "[]"] by (simp add: re_split_def match_at_def)

lemma split_sentences_spec: "split_sentences text = spec_sentences text"
  by (simp add: split_sentences_def spec_sentences_def re_split_break filter_map comp_def)


subsection \<open>What the sentences look like\<close>

lemma strip_decomp:
  "s = takeWhile isspace s @ strip s @ rev (takeWhile isspace (rev (dropWhile isspace s)))"
proof -
  let ?t = "dropWhile isspace s"
  have "rev (dropWhile isspace (rev ?t)) @ rev (takeWhile isspace (rev ?t))
          = rev (takeWhile isspace (rev ?t) @ dropWhile isspace (rev ?t))"
    by (simp only: rev_append)
  also have "\<dots> = rev (rev ?t)" by (simp only: takeWhile_dropWhile_id)
  also have "\<dots> = ?t" by simp
  finally have "?t = strip s @ rev (takeWhile isspace (rev ?t))"
    by (simp add: strip_def)
  moreover have "s = takeWhile isspace s @ ?t" by simp
  ultimately show ?thesis by metis
qed

lemma strip_sublist: "sublist (strip s) s"
  unfolding sublist_def using strip_decomp [of s] by blast

lemma strip_ends:
  assumes "strip s \<noteq> []"
  shows "\<not> isspace (hd (strip s))" and "\<not> isspace (last (strip s))"
proof -
  let ?t = "dropWhile isspace s"
  let ?u = "dropWhile isspace (rev ?t)"
  have u: "?u \<noteq> []" using assms by (simp add: strip_def)
  have t: "?t \<noteq> []"
    using u by (metis dropWhile.simps(1) rev.simps(1))
  have "last (strip s) = hd ?u" using u by (simp add: strip_def last_rev)
  moreover have "\<not> isspace (hd ?u)" using u by (rule hd_dropWhile)
  ultimately show "\<not> isspace (last (strip s))" by simp
  have "rev ?t = takeWhile isspace (rev ?t) @ ?u" by simp
  then have "last (rev ?t) = last ?u" using u by (metis last_appendR)
  then have "hd ?t = last ?u" using t by (simp add: last_rev)
  moreover have "hd (strip s) = last ?u" using u by (simp add: strip_def hd_rev)
  moreover have "\<not> isspace (hd ?t)" using t by (rule hd_dropWhile)
  ultimately show "\<not> isspace (hd (strip s))" by simp
qed

lemma strip_keeps_last:
  assumes "s \<noteq> []" and "\<not> isspace (last s)"
  shows "strip s \<noteq> []" and "last (strip s) = last s"
proof -
  have ne: "strip s \<noteq> []" using assms by (auto simp: strip_empty_iff)
  let ?w = "rev (takeWhile isspace (rev (dropWhile isspace s)))"
  have d: "s = (takeWhile isspace s @ strip s) @ ?w" using strip_decomp [of s] by simp
  have "?w = []"
  proof (rule ccontr)
    assume w: "?w \<noteq> []"
    then have "last s = last ?w" using d by (metis last_appendR)
    moreover have "last ?w \<in> set (takeWhile isspace (rev (dropWhile isspace s)))"
      using w by (metis last_in_set set_rev)
    ultimately show False using assms(2) by (metis set_takeWhileD)
  qed
  then have "s = takeWhile isspace s @ strip s" using d by simp
  then have "last s = last (strip s)" using ne by (metis last_appendR)
  then show "last (strip s) = last s" by simp
  show "strip s \<noteq> []" by (rule ne)
qed

lemma filter_nonspace_dropWhile:
  "filter (\<lambda>c. \<not> isspace c) (dropWhile isspace xs) = filter (\<lambda>c. \<not> isspace c) xs"
  by (induction xs) simp_all

lemma filter_nonspace_strip:
  "filter (\<lambda>c. \<not> isspace c) (strip s) = filter (\<lambda>c. \<not> isspace c) s"
proof -
  have "filter (\<lambda>c. \<not> isspace c) (strip s)
          = rev (filter (\<lambda>c. \<not> isspace c) (dropWhile isspace (rev (dropWhile isspace s))))"
    by (simp add: strip_def rev_filter)
  also have "\<dots> = rev (filter (\<lambda>c. \<not> isspace c) (rev (dropWhile isspace s)))"
    by (simp only: filter_nonspace_dropWhile)
  also have "\<dots> = filter (\<lambda>c. \<not> isspace c) (dropWhile isspace s)"
    by (simp add: rev_filter)
  finally show ?thesis by (simp only: filter_nonspace_dropWhile)
qed

lemma concat_glue:
  "concat (map (filter P) (glue c ps)) = filter P [c] @ concat (map (filter P) ps)"
  by (cases ps) simp_all

lemma break_keeps_nonspace:
  "concat (map (filter (\<lambda>c. \<not> isspace c)) (break_after_terminator t))
     = filter (\<lambda>c. \<not> isspace c) t"
proof (induction t rule: break_after_terminator.induct)
  case 1
  show ?case by simp
next
  case (2 c)
  show ?case by simp
next
  case (3 c d cs)
  show ?case
  proof (cases "is_terminator c \<and> isspace d")
    case True
    with "3.IH"(1) show ?thesis by (simp add: filter_nonspace_dropWhile)
  next
    case False
    then have b: "break_after_terminator (c # d # cs) = glue c (break_after_terminator (d # cs))"
      by auto
    from "3.IH"(2) [OF False] show ?thesis unfolding b concat_glue by simp
  qed
qed

lemma sentences_keep_nonspace:
  "concat (map (filter (\<lambda>c. \<not> isspace c)) (split_sentences text))
     = filter (\<lambda>c. \<not> isspace c) text"
proof -
  have "concat (map (filter (\<lambda>c. \<not> isspace c)) (map strip (filter (\<lambda>s. strip s \<noteq> []) ps)))
          = concat (map (filter (\<lambda>c. \<not> isspace c)) ps)" for ps
  proof (induction ps)
    case Nil
    show ?case by simp
  next
    case (Cons p ps)
    show ?case
    proof (cases "strip p = []")
      case True
      then have "filter (\<lambda>c. \<not> isspace c) p = []" by (simp add: strip_empty_iff)
      with True Cons show ?thesis by simp
    next
      case False
      with Cons show ?thesis by (simp add: filter_nonspace_strip)
    qed
  qed
  then show ?thesis
    by (simp add: split_sentences_def re_split_break break_keeps_nonspace)
qed


lemma break_Cons_hd: "\<exists>q qs. break_after_terminator (c # cs) = (c # q) # qs"
proof (cases cs)
  case Nil
  then show ?thesis by simp
next
  case (Cons d ds)
  obtain p ps where "break_after_terminator (d # ds) = p # ps"
    using break_ne [of "d # ds"] by (cases "break_after_terminator (d # ds)") auto
  then show ?thesis using Cons by simp
qed

lemma break_hd_prefix: "prefix (hd (break_after_terminator t)) t"
proof (induction t rule: break_after_terminator.induct)
  case 1
  show ?case by simp
next
  case (2 c)
  show ?case by simp
next
  case (3 c d cs)
  show ?case
  proof (cases "is_terminator c \<and> isspace d")
    case True
    then show ?thesis by simp
  next
    case False
    then have b: "break_after_terminator (c # d # cs) = glue c (break_after_terminator (d # cs))"
      by auto
    from "3.IH"(2) [OF False] show ?thesis unfolding b by (simp add: glue_hd_tl)
  qed
qed

lemma sublist_dropWhile: "sublist p (dropWhile P xs) \<Longrightarrow> sublist p xs"
  by (metis sublist_appendI takeWhile_dropWhile_id sublist_order.order_trans
      sublist_order.order_refl sublist_append_leftI)

lemma break_pieces_sublist: "p \<in> set (break_after_terminator t) \<Longrightarrow> sublist p t"
proof (induction t arbitrary: p rule: break_after_terminator.induct)
  case 1
  then show ?case by simp
next
  case (2 c)
  then show ?case by simp
next
  case (3 c d cs)
  show ?case
  proof (cases "is_terminator c \<and> isspace d")
    case True
    with "3.prems" have "p = [c] \<or> p \<in> set (break_after_terminator (dropWhile isspace cs))"
      by simp
    then show ?thesis
    proof
      assume "p = [c]"
      then show ?thesis by (simp add: sublist_Cons_right)
    next
      assume "p \<in> set (break_after_terminator (dropWhile isspace cs))"
      with "3.IH"(1) [OF True] have "sublist p (dropWhile isspace cs)" by blast
      then have "sublist p cs" by (rule sublist_dropWhile)
      then show ?thesis by (simp add: sublist_Cons_right)
    qed
  next
    case False
    then have b: "break_after_terminator (c # d # cs) = glue c (break_after_terminator (d # cs))"
      by auto
    let ?r = "break_after_terminator (d # cs)"
    from "3.prems" have "p = c # hd ?r \<or> p \<in> set (tl ?r)"
      unfolding b by (simp add: glue_hd_tl)
    then show ?thesis
    proof
      assume "p = c # hd ?r"
      moreover have "prefix (hd ?r) (d # cs)" by (rule break_hd_prefix)
      ultimately have "prefix p (c # d # cs)" by simp
      then show ?thesis by (rule prefix_imp_sublist)
    next
      assume "p \<in> set (tl ?r)"
      then have "p \<in> set ?r" by (metis break_ne list.set_sel(2))
      with "3.IH"(2) [OF False] have "sublist p (d # cs)" by blast
      then show ?thesis by (simp add: sublist_Cons_right)
    qed
  qed
qed

text \<open>No piece contains a terminator directly followed by whitespace.\<close>

lemma break_pieces_unbroken:
  "p \<in> set (break_after_terminator t) \<Longrightarrow> is_terminator a \<Longrightarrow> isspace b \<Longrightarrow>
     \<not> sublist [a, b] p"
proof (induction t arbitrary: p rule: break_after_terminator.induct)
  case 1
  then show ?case by simp
next
  case (2 c)
  then show ?case by (simp add: sublist_Cons_right)
next
  case (3 c d cs)
  show ?case
  proof (cases "is_terminator c \<and> isspace d")
    case True
    with "3.prems"(1) have "p = [c] \<or> p \<in> set (break_after_terminator (dropWhile isspace cs))"
      by simp
    then show ?thesis
    proof
      assume "p = [c]"
      then show ?thesis by (simp add: sublist_Cons_right)
    next
      assume "p \<in> set (break_after_terminator (dropWhile isspace cs))"
      with "3.IH"(1) [OF True] "3.prems"(2,3) show ?thesis by blast
    qed
  next
    case False
    then have b: "break_after_terminator (c # d # cs) = glue c (break_after_terminator (d # cs))"
      by auto
    obtain q qs where r: "break_after_terminator (d # cs) = (d # q) # qs"
      using break_Cons_hd [of d cs] by blast
    from "3.prems"(1) have "p = c # d # q \<or> p \<in> set qs" unfolding b r by simp
    then show ?thesis
    proof
      assume p: "p = c # d # q"
      have "\<not> sublist [a, b] (d # q)"
        using "3.IH"(2) [OF False, of "d # q"] "3.prems"(2,3) r by simp
      moreover have "\<not> prefix [a, b] (c # d # q)"
        using False "3.prems"(2,3) by auto
      ultimately show ?thesis unfolding p by (simp add: sublist_Cons_right)
    next
      assume "p \<in> set qs"
      then have "p \<in> set (break_after_terminator (d # cs))" unfolding r by simp
      with "3.IH"(2) [OF False] "3.prems"(2,3) show ?thesis by blast
    qed
  qed
qed

text \<open>Every piece but the last ends with the terminator that closed it.\<close>

lemma break_butlast_terminated:
  "p \<in> set (butlast (break_after_terminator t)) \<Longrightarrow> p \<noteq> [] \<and> is_terminator (last p)"
proof (induction t arbitrary: p rule: break_after_terminator.induct)
  case 1
  then show ?case by simp
next
  case (2 c)
  then show ?case by simp
next
  case (3 c d cs)
  show ?case
  proof (cases "is_terminator c \<and> isspace d")
    case True
    with "3.prems"
    have "p = [c] \<or> p \<in> set (butlast (break_after_terminator (dropWhile isspace cs)))"
      by simp
    then show ?thesis
    proof
      assume "p = [c]"
      with True show ?thesis by simp
    next
      assume "p \<in> set (butlast (break_after_terminator (dropWhile isspace cs)))"
      with "3.IH"(1) [OF True] show ?thesis by blast
    qed
  next
    case False
    then have b: "break_after_terminator (c # d # cs) = glue c (break_after_terminator (d # cs))"
      by auto
    obtain q qs where r: "break_after_terminator (d # cs) = (d # q) # qs"
      using break_Cons_hd [of d cs] by blast
    show ?thesis
    proof (cases "qs = []")
      case True
      with "3.prems" show ?thesis unfolding b r by simp
    next
      case qs: False
      with "3.prems" have "p = c # d # q \<or> p \<in> set (butlast qs)" unfolding b r by simp
      then show ?thesis
      proof
        assume p: "p = c # d # q"
        have "d # q \<in> set (butlast (break_after_terminator (d # cs)))"
          unfolding r using qs by simp
        with "3.IH"(2) [OF False] have "is_terminator (last (d # q))" by blast
        then show ?thesis unfolding p by simp
      next
        assume "p \<in> set (butlast qs)"
        then have "p \<in> set (butlast (break_after_terminator (d # cs)))"
          unfolding r using qs by simp
        with "3.IH"(2) [OF False] show ?thesis by blast
      qed
    qed
  qed
qed


lemma sentence_from_piece:
  assumes "s \<in> set (split_sentences text)"
  obtains p where "p \<in> set (break_after_terminator text)" and "s = strip p" and "strip p \<noteq> []"
  using assms by (auto simp: split_sentences_def re_split_break)

lemma butlast_append_short: "length ys \<le> 1 \<Longrightarrow> set (butlast (xs @ ys)) \<subseteq> set xs"
proof (cases ys)
  case Nil
  then show ?thesis by (auto dest: in_set_butlastD)
next
  case (Cons y zs)
  assume "length ys \<le> 1"
  with Cons have "ys = [y]" by simp
  then show ?thesis by (simp add: butlast_append)
qed

lemma sentences_butlast_terminated:
  assumes "s \<in> set (butlast (split_sentences text))"
  shows "is_terminator (last s)"
proof -
  let ?ps = "break_after_terminator text"
  let ?Q = "\<lambda>s. strip s \<noteq> []"
  have ps: "?ps = butlast ?ps @ [last ?ps]" by simp
  have ok: "p \<noteq> [] \<and> is_terminator (last p) \<and> strip p \<noteq> [] \<and> last (strip p) = last p"
    if "p \<in> set (butlast ?ps)" for p
  proof -
    from break_butlast_terminated [OF that] have a: "p \<noteq> []" and b: "is_terminator (last p)"
      by simp_all
    from b have "\<not> isspace (last p)" by (rule terminator_not_space)
    with a strip_keeps_last [of p] a b show ?thesis by simp
  qed
  have "filter ?Q ?ps = filter ?Q (butlast ?ps) @ filter ?Q [last ?ps]"
    by (metis filter_append ps)
  moreover have "filter ?Q (butlast ?ps) = butlast ?ps"
    using ok by (simp add: filter_id_conv)
  ultimately have "split_sentences text
      = map strip (butlast ?ps) @ map strip (filter ?Q [last ?ps])"
    by (simp add: split_sentences_def re_split_break)
  moreover have "length (map strip (filter ?Q [last ?ps])) \<le> 1" by simp
  ultimately have "set (butlast (split_sentences text)) \<subseteq> set (map strip (butlast ?ps))"
    using butlast_append_short by metis
  with assms obtain p where "p \<in> set (butlast ?ps)" "s = strip p" by auto
  with ok [of p] show ?thesis by simp
qed

text \<open>
  Claim C7.  The sentence list of the code is the list obtained by the splitting rule:
  break after every terminator \<open>.\<close>, \<open>!\<close> or \<open>?\<close> that is followed by whitespace, skip the
  whole whitespace run, trim every piece and drop the pieces that are empty after
  trimming, in the original order.  Every sentence is a non-empty block of the text
  without whitespace at either end and without a terminator followed by whitespace
  inside; every sentence but the last ends with its terminator; and the characters of
  the text that are not whitespace are exactly those of the sentences, in order, each
  once.
\<close>

theorem sentence_splitting:
  "split_sentences text = spec_sentences text
   \<and> (\<forall>s\<in>set (split_sentences text).
         s \<noteq> [] \<and> \<not> isspace (hd s) \<and> \<not> isspace (last s) \<and> sublist s text
       \<and> (\<forall>a b. is_terminator a \<and> isspace b \<longrightarrow> \<not> sublist [a, b] s))
   \<and> (\<forall>s\<in>set (butlast (split_sentences text)). is_terminator (last s))
   \<and> concat (map (filter (\<lambda>c. \<not> isspace c)) (split_sentences text))
       = filter (\<lambda>c. \<not> isspace c) text"
proof (intro conjI ballI allI impI)
  show "split_sentences text = spec_sentences text" by (rule split_sentences_spec)
next
  fix s assume s: "s \<in> set (split_sentences text)"
  then obtain p where p: "p \<in> set (break_after_terminator text)" "s = strip p" "strip p \<noteq> []"
    by (rule sentence_from_piece)
  show "s \<noteq> []" using p by simp
  show "\<not> isspace (hd s)" using p strip_ends(1) by simp
  show "\<not> isspace (last s)" using p strip_ends(2) by simp
  have sp: "sublist s p" unfolding p(2) by (rule strip_sublist)
  show "sublist s text"
    using sp break_pieces_sublist [OF p(1)] by (rule sublist_order.order_trans)
  fix a b assume ab: "is_terminator a \<and> isspace b"
  show "\<not> sublist [a, b] s"
  proof
    assume "sublist [a, b] s"
    then have "sublist [a, b] p" using sp by (rule sublist_order.order_trans)
    with break_pieces_unbroken [OF p(1), of a b] ab show False by simp
  qed
next
  fix s assume "s \<in> set (butlast (split_sentences text))"
  then show "is_terminator (last s)" by (rule sentences_butlast_terminated)
next
  show "concat (map (filter (\<lambda>c. \<not> isspace c)) (split_sentences text))
       = filter (\<lambda>c. \<not> isspace c) text"
    by (rule sentences_keep_nonspace)
qed

lemma greeting_sentences:
  "split_sentences '' Hi there!  How are you? Fine. '' = [''Hi there!'', ''How are you?'', ''Fine.'']"
  by code_simp

theorem sentence_splitting_witness:
  "''Hi there!'' \<in> set (butlast (split_sentences '' Hi there!  How are you? Fine. ''))
   \<and> ''Fine.'' \<in> set (split_sentences '' Hi there!  How are you? Fine. '')
   \<and> is_terminator CHR ''.'' \<and> isspace CHR '' ''
   \<and> spec_sentences '' Hi there!  How are you? Fine. ''
       = [''Hi there!'', ''How are you?'', ''Fine.'']
   \<and> is_terminator (last ''Hi there!'')
   \<and> sublist ''Fine.'' '' Hi there!  How are you? Fine. ''
   \<and> \<not> sublist ''. '' ''Fine.''"
proof -
  let ?t = "'' Hi there!  How are you? Fine. ''"
  have a: "''Hi there!'' \<in> set (butlast (split_sentences ?t))"
    by (simp add: greeting_sentences)
  have b: "''Fine.'' \<in> set (split_sentences ?t)"
    by (simp add: greeting_sentences)
  have c: "is_terminator CHR ''.'' \<and> isspace CHR '' ''"
    by (simp add: is_terminator_def isspace_def)
  note inst = sentence_splitting [of ?t]
  from inst have "spec_sentences ?t = [''Hi there!'', ''How are you?'', ''Fine.'']"
    by (simp add: greeting_sentences)
  moreover from inst a have "is_terminator (last ''Hi there!'')" by blast
  moreover from inst b have "sublist ''Fine.'' ?t" by blast
  moreover from inst b c have "\<not> sublist ''. '' ''Fine.''" by blast
  ultimately show ?thesis using a b c by blast
qed

end
